theory Spec2Isabelle
  imports Complex_Main "HOL-Library.Sublist"
begin

section \<open>Python values\<close>

text \<open>
  The values that travel through the keyword maps of the cycle model and through the
  vehicle-family-id cells of the report files.  Equality of two values is Python's
  \<^verbatim>\<open>==\<close> on them (floats, whose \<^verbatim>\<open>nan\<close> is unequal to itself, are left out).
\<close>

datatype pyval = PNone | PBool bool | PInt int | PStr string

section \<open>Branch eligibility of the cycle model (co2mpas/model/physical/cycle)\<close>

text \<open>\<^verbatim>\<open>sub in s\<close> on Python strings: \<open>sub\<close> occurs in \<open>s\<close> as a contiguous run.\<close>

fun str_contains :: "string \<Rightarrow> string \<Rightarrow> bool" where
  "str_contains sub [] = (sub = [])"
| "str_contains sub (c # cs) = (prefix sub (c # cs) \<or> str_contains sub cs)"

text \<open>
  A keyword map is a Python dict: its items are visited in insertion order, so it is an
  association list.  Both predicates return at the first key that names the cycle type.
\<close>

fun is_nedc :: "(string \<times> pyval) list \<Rightarrow> bool" where
  "is_nedc [] = False"
| "is_nedc ((k, v) # kwargs) =
     (if str_contains '':cycle_type'' k \<or> ''cycle_type'' = k then v = PStr ''NEDC''
      else is_nedc kwargs)"

fun is_wltp :: "(string \<times> pyval) list \<Rightarrow> bool" where
  "is_wltp [] = False"
| "is_wltp ((k, v) # kwargs) =
     (if str_contains '':cycle_type'' k \<or> ''cycle_type'' = k then v = PStr ''WLTP''
      else is_wltp kwargs)"

section \<open>Dice reports (co2mpas/sampling/report.py)\<close>

text \<open>
  \<open>Report.yield_report_tuples_from_iofiles\<close> is a generator: its caller sees the tuples
  yielded so far, the warnings logged, and the exception that ends it, if any.  The model
  threads these through the three loops as a record, together with the closure variable
  \<open>expected_vfid\<close> that \<open>check_vfid_missmatch\<close> reads and writes.

  Reading the spreadsheet cells (\<open>xleash.lasso\<close>) and normalising a path
  (\<open>pndlu.convpath\<close>) are library calls; they enter as the fields of the \<open>Report\<close>
  object, an extraction returning \<open>Inl\<close> when the library raises.
\<close>

record PFiles =
  inp :: "string list"
  out :: "string list"
  other :: "string list"

record 'df Report =
  force :: bool
  convpath :: "string \<Rightarrow> string"
  extract_vfid_from_input :: "string \<Rightarrow> string + pyval"
  extract_dice_report_from_output :: "string \<Rightarrow> string + pyval \<times> 'df"

datatype exn = CmdException string pyval pyval | ExtractionError string

datatype 'df report = InputReport pyval | DiceReport 'df | NoReport

record 'df gen =
  yielded :: "(string \<times> string \<times> 'df report) list"
  expected_vfid :: pyval
  warnings :: "(string \<times> pyval \<times> pyval) list"
  raised :: "exn option"

definition check_vfid_missmatch :: "'df Report \<Rightarrow> string \<Rightarrow> pyval \<Rightarrow> 'df gen \<Rightarrow> 'df gen" where
  "check_vfid_missmatch self fpath file_vfid st =
     (if expected_vfid st = PNone then st\<lparr>expected_vfid := file_vfid\<rparr>
      else if expected_vfid st \<noteq> file_vfid then
        (if force self
         then st\<lparr>warnings := warnings st @ [(fpath, file_vfid, expected_vfid st)]\<rparr>
         else st\<lparr>raised := Some (CmdException fpath file_vfid (expected_vfid st))\<rparr>)
      else st)"

fun inp_files :: "'df Report \<Rightarrow> string list \<Rightarrow> 'df gen \<Rightarrow> 'df gen" where
  "inp_files self [] st = st"
| "inp_files self (f # fs) st =
     (let fpath = convpath self f in
      case extract_vfid_from_input self fpath of
        Inl e \<Rightarrow> st\<lparr>raised := Some (ExtractionError e)\<rparr>
      | Inr file_vfid \<Rightarrow>
          (let st1 = check_vfid_missmatch self fpath file_vfid st in
           if raised st1 \<noteq> None then st1
           else inp_files self fs
                  (st1\<lparr>yielded := yielded st1 @ [(fpath, ''inp'', InputReport file_vfid)]\<rparr>)))"

fun out_files :: "'df Report \<Rightarrow> string list \<Rightarrow> 'df gen \<Rightarrow> 'df gen" where
  "out_files self [] st = st"
| "out_files self (f # fs) st =
     (let fpath = convpath self f in
      case extract_dice_report_from_output self fpath of
        Inl e \<Rightarrow> st\<lparr>raised := Some (ExtractionError e)\<rparr>
      | Inr (file_vfid, dice_report) \<Rightarrow>
          (let st1 = check_vfid_missmatch self fpath file_vfid st in
           if raised st1 \<noteq> None then st1
           else out_files self fs
                  (st1\<lparr>yielded := yielded st1 @ [(fpath, ''out'', DiceReport dice_report)]\<rparr>)))"

fun other_files :: "'df Report \<Rightarrow> string list \<Rightarrow> 'df gen \<Rightarrow> 'df gen" where
  "other_files self [] st = st"
| "other_files self (f # fs) st =
     (let fpath = convpath self f in
      other_files self fs (st\<lparr>yielded := yielded st @ [(fpath, ''other'', NoReport)]\<rparr>))"

text \<open>
  The generator's body from line 95 on, for a given content of the local variable
  \<open>expected_vfid\<close>.
\<close>

definition report_tuples :: "'df Report \<Rightarrow> PFiles \<Rightarrow> pyval \<Rightarrow> 'df gen" where
  "report_tuples self iofiles expected =
     (let st0 = \<lparr>yielded = [], expected_vfid = expected, warnings = [], raised = None\<rparr>;
          st1 = inp_files self (inp iofiles) st0;
          st2 = (if raised st1 = None then out_files self (out iofiles) st1 else st1)
      in if raised st2 = None then other_files self (other iofiles) st2 else st2)"

text \<open>Line 93 overwrites the parameter before anything reads it.\<close>

definition yield_report_tuples_from_iofiles :: "'df Report \<Rightarrow> PFiles \<Rightarrow> pyval \<Rightarrow> 'df gen" where
  "yield_report_tuples_from_iofiles self iofiles expected =
     (let expected = PNone in report_tuples self iofiles expected)"



text \<open>
  Two runs on concrete files.  The output file \<open>a.xlsx\<close> has an empty id cell, which
  \<open>extract_dice_report_from_output\<close> turns into \<open>None\<close> (line 66).
\<close>

definition ex_report :: "nat Report" where
  "ex_report =
     \<lparr>force = False,
      convpath = (\<lambda>p. p),
      extract_vfid_from_input = (\<lambda>p. Inr (PStr ''A'')),
      extract_dice_report_from_output =
        (\<lambda>p. if p = ''a.xlsx'' then Inr (PNone, 0)
             else if p = ''b.xlsx'' then Inr (PStr ''A'', 1)
             else Inr (PStr ''B'', 2))\<rparr>"


definition ex_files :: PFiles where
  "ex_files = \<lparr>inp = [''i.xlsx''], out = [''b.xlsx'', ''c.xlsx''], other = [''notes.txt'']\<rparr>"

section \<open>Drawing a dispatcher (dispatcher/draw.py)\<close>








section \<open>The resolver (dispatcher core)\<close>

text \<open>
  Modelled from the spec: the resolver itself (the \<open>Dispatcher\<close> class with \<open>add_data\<close>,
  \<open>add_function\<close>, \<open>add_dispatcher\<close> and \<open>dispatch\<close>) is not among the sources, which
  hold only its callers (the engine and cycle model wiring, the drawing functions).  The
  data model below follows section 3 of the specification.

  A data id is a caller's string or one of the two sentinels.
\<close>

datatype node_id = START | SINK | Data string

text \<open>
  Modelled from the spec: a data node with its optional default value and its "wait for
  explicit input" flag.  The loop of section 4.2 never reads the flag: it treats every
  default as the weakest source.
\<close>

record 'v data_node =
  data_id :: string
  default_value :: "'v option"
  wait_input :: bool

text \<open>
  Modelled from the spec: a function node.  Its registration order index is its position
  in \<open>function_nodes\<close>, which is how the run state and the trace name it; \<open>function_id\<close>
  is the id given at registration.  The callable returns \<open>Inl\<close> when it raises.  A
  sub-dispatcher is a function node too: its callable is the nested resolution, its inputs
  and outputs are the parent ids of its rename maps.
\<close>

record 'v function_node =
  function_id :: string
  fn_inputs :: "node_id list"
  fn_outputs :: "node_id list"
  weight :: real
  input_domain :: "((string \<times> 'v) list \<Rightarrow> bool) option"
  callable :: "'v list \<Rightarrow> string + 'v list"

record 'v graph =
  data_nodes :: "'v data_node list"
  function_nodes :: "'v function_node list"

text \<open>
  Modelled from the spec: the producer of a settlement, and the trace of the Workflow
  Recorder (section 4.3) in the order of its three calls \<open>record_settlement\<close>,
  \<open>record_invocation\<close> and \<open>record_failure\<close>.
\<close>

datatype provenance = FromInput | FromStart | FromDefault | FromFunction nat

datatype 'v event =
    Settlement node_id "'v option" provenance
  | Invocation nat "'v list" "'v list"
  | Failure nat string

text \<open>
  Modelled from the spec: the state of one run (section 4.2), with the results of the
  functions already invoked.  \<open>START\<close> settles with no value.
\<close>

record 'v run_state =
  queue :: "(real \<times> node_id \<times> provenance) list"
  settled :: "node_id \<Rightarrow> ('v option \<times> real \<times> provenance) option"
  pending :: "nat \<Rightarrow> nat"
  discarded :: "nat \<Rightarrow> bool"
  results :: "nat \<Rightarrow> 'v list option"
  run_workflow :: "'v event list"

text \<open>
  Modelled from the spec: a function with no input is reachable from \<open>START\<close>, which then
  is its one prerequisite.
\<close>

definition required :: "'v function_node \<Rightarrow> node_id list" where
  "required f = (if fn_inputs f = [] then [START] else fn_inputs f)"

definition consumers :: "'v graph \<Rightarrow> node_id \<Rightarrow> nat list" where
  "consumers g d =
     filter (\<lambda>i. d \<in> set (required (function_nodes g ! i))) [0..<length (function_nodes g)]"

text \<open>
  Modelled from the spec: step 3 of the loop.  When the last input slot of a function
  settles, its \<open>input_domain\<close> is evaluated on the raw \<open>inputs\<close> of the call; a function
  that passes pushes a candidate for each output that is not \<open>SINK\<close> and has no settlement
  of at most the candidate's cost, the cost being the weight plus the greatest cost of
  the required inputs.
\<close>

definition cost_of :: "'v run_state \<Rightarrow> node_id \<Rightarrow> real" where
  "cost_of s d = (case settled s d of Some (v, c, p) \<Rightarrow> c | None \<Rightarrow> 0)"

definition domain_ok :: "'v function_node \<Rightarrow> (string \<times> 'v) list \<Rightarrow> bool" where
  "domain_ok f inputs = (case input_domain f of None \<Rightarrow> True | Some P \<Rightarrow> P inputs)"

definition candidate_cost :: "'v run_state \<Rightarrow> 'v function_node \<Rightarrow> real" where
  "candidate_cost s f = weight f + foldr max (map (cost_of s) (required f)) 0"

definition settled_within :: "'v run_state \<Rightarrow> node_id \<Rightarrow> real \<Rightarrow> bool" where
  "settled_within s d c = (case settled s d of Some (v, c', p) \<Rightarrow> c' \<le> c | None \<Rightarrow> False)"

definition candidates :: "'v run_state \<Rightarrow> 'v function_node \<Rightarrow> nat \<Rightarrow> (real \<times> node_id \<times> provenance) list" where
  "candidates s f i =
     map (\<lambda>out. (candidate_cost s f, out, FromFunction i))
       (filter (\<lambda>out. out \<noteq> SINK \<and> \<not> settled_within s out (candidate_cost s f)) (fn_outputs f))"

definition relax :: "'v graph \<Rightarrow> (string \<times> 'v) list \<Rightarrow> node_id \<Rightarrow> 'v run_state \<Rightarrow> nat \<Rightarrow> 'v run_state" where
  "relax g inputs d s i =
     (let f = function_nodes g ! i;
          n = pending s i - count_list (required f) d;
          s1 = s\<lparr>pending := (pending s)(i := n)\<rparr>
      in if n = 0 \<and> \<not> discarded s1 i then
           (if \<not> domain_ok f inputs then s1\<lparr>discarded := (discarded s1)(i := True)\<rparr>
            else s1\<lparr>queue := queue s1 @ candidates s1 f i\<rparr>)
         else s1)"

text \<open>
  Modelled from the spec: step 2 settles the id, the recorder notes it, and step 3 runs
  over the consumers in registration order.
\<close>

definition settle :: "'v graph \<Rightarrow> (string \<times> 'v) list \<Rightarrow> node_id \<Rightarrow> 'v option \<Rightarrow> real \<Rightarrow> provenance
    \<Rightarrow> 'v run_state \<Rightarrow> 'v run_state" where
  "settle g inputs d v c p s =
     foldl (relax g inputs d)
       (s\<lparr>settled := (settled s)(d \<mapsto> (v, c, p)),
          run_workflow := run_workflow s @ [Settlement d v p]\<rparr>)
       (consumers g d)"

text \<open>
  Modelled from the spec: the queue pops an entry of least cost; among equal costs the
  function registered earlier comes first, then the entry pushed first.
\<close>

fun rank :: "provenance \<Rightarrow> nat" where
  "rank (FromFunction i) = Suc i"
| "rank p = 0"

definition precedes :: "real \<times> node_id \<times> provenance \<Rightarrow> real \<times> node_id \<times> provenance \<Rightarrow> bool" where
  "precedes a b = (fst a < fst b \<or> (fst a = fst b \<and> rank (snd (snd a)) \<le> rank (snd (snd b))))"

fun min_entry :: "real \<times> node_id \<times> provenance \<Rightarrow> (real \<times> node_id \<times> provenance) list
    \<Rightarrow> real \<times> node_id \<times> provenance" where
  "min_entry e [] = e"
| "min_entry e (x # xs) = (if precedes e x then min_entry e xs else min_entry x xs)"

definition pop_min :: "(real \<times> node_id \<times> provenance) list
    \<Rightarrow> ((real \<times> node_id \<times> provenance) \<times> (real \<times> node_id \<times> provenance) list) option" where
  "pop_min q = (case q of [] \<Rightarrow> None | e # es \<Rightarrow> Some (min_entry e es, remove1 (min_entry e es) q))"

text \<open>
  Modelled from the spec: step 4.  A function is invoked when one of its candidates is
  popped for an unsettled id, once; its result is matched to its outputs by position, and
  a result of the wrong length counts as a failure of the callable.  A callable that fails
  is discarded and noted in the trace, and the id stays unsettled.
\<close>

definition arguments :: "'v run_state \<Rightarrow> 'v function_node \<Rightarrow> 'v list" where
  "arguments s f =
     List.map_filter (\<lambda>a. case settled s a of Some (Some v, c, p) \<Rightarrow> Some v | _ \<Rightarrow> None) (fn_inputs f)"

definition invoke :: "'v function_node \<Rightarrow> 'v list \<Rightarrow> string + 'v list" where
  "invoke f args =
     (case callable f args of
        Inl e \<Rightarrow> Inl e
      | Inr vs \<Rightarrow> if length vs = length (fn_outputs f) then Inr vs else Inl ''arity'')"

definition output_value :: "'v function_node \<Rightarrow> 'v list \<Rightarrow> node_id \<Rightarrow> 'v option" where
  "output_value f vs d = map_of (zip (fn_outputs f) vs) d"

definition serve :: "'v graph \<Rightarrow> (string \<times> 'v) list \<Rightarrow> real \<Rightarrow> node_id \<Rightarrow> provenance
    \<Rightarrow> 'v run_state \<Rightarrow> 'v run_state" where
  "serve g inputs c d p s =
     (if settled s d \<noteq> None then s
      else case p of
        FromStart \<Rightarrow> settle g inputs d None c p s
      | FromInput \<Rightarrow>
          (case d of
             Data k \<Rightarrow> (case map_of inputs k of
                          Some v \<Rightarrow> settle g inputs d (Some v) c p s
                        | None \<Rightarrow> s)
           | _ \<Rightarrow> s)
      | FromDefault \<Rightarrow> s
      | FromFunction i \<Rightarrow>
          if discarded s i \<or> \<not> i < length (function_nodes g) then s
          else
            (let f = function_nodes g ! i in
             case results s i of
               Some vs \<Rightarrow> settle g inputs d (output_value f vs d) c p s
             | None \<Rightarrow>
                 (case invoke f (arguments s f) of
                    Inl e \<Rightarrow> s\<lparr>discarded := (discarded s)(i := True),
                               run_workflow := run_workflow s @ [Failure i e]\<rparr>
                  | Inr vs \<Rightarrow>
                      settle g inputs d (output_value f vs d) c p
                        (s\<lparr>results := (results s)(i \<mapsto> vs),
                           run_workflow := run_workflow s @ [Invocation i (arguments s f) vs]\<rparr>))))"

text \<open>
  Modelled from the spec: step 6 and the defaults.  The loop stops when every requested
  id is settled (when some id is requested) or nothing is left to do; a default value is
  used at cost 0 once the queue is exhausted.
\<close>

definition finished :: "node_id list \<Rightarrow> 'v run_state \<Rightarrow> bool" where
  "finished requested s = (requested \<noteq> [] \<and> list_all (\<lambda>d. settled s d \<noteq> None) requested)"

definition awaits_default :: "(string \<times> 'v) list \<Rightarrow> 'v run_state \<Rightarrow> 'v data_node \<Rightarrow> bool" where
  "awaits_default inputs s n =
     (default_value n \<noteq> None \<and> settled s (Data (data_id n)) = None \<and> map_of inputs (data_id n) = None)"

definition step :: "'v graph \<Rightarrow> (string \<times> 'v) list \<Rightarrow> node_id list \<Rightarrow> 'v run_state \<Rightarrow> 'v run_state option" where
  "step g inputs requested s =
     (if finished requested s then None
      else case pop_min (queue s) of
        Some ((c, d, p), q) \<Rightarrow> Some (serve g inputs c d p (s\<lparr>queue := q\<rparr>))
      | None \<Rightarrow>
          (case find (awaits_default inputs s) (data_nodes g) of
             Some n \<Rightarrow> Some (settle g inputs (Data (data_id n)) (default_value n) 0 FromDefault s)
           | None \<Rightarrow> None))"

text \<open>
  Every id that a run can still settle is in the queue, an output of a function or a data
  node; each iteration settles one of them or shortens the queue.
\<close>

definition universe :: "'v graph \<Rightarrow> 'v run_state \<Rightarrow> node_id set" where
  "universe g s =
     (\<lambda>e. fst (snd e)) ` set (queue s) \<union>
     (\<Union>f \<in> set (function_nodes g). set (fn_outputs f)) \<union>
     (\<lambda>n. Data (data_id n)) ` set (data_nodes g)"

lemma finite_universe: "finite (universe g s)"
  by (simp add: universe_def)

lemma relax_settled [simp]: "settled (relax g inputs d s i) = settled s"
  by (simp add: relax_def Let_def)

lemma relax_results [simp]: "results (relax g inputs d s i) = results s"
  by (simp add: relax_def Let_def)

lemma relax_workflow [simp]: "run_workflow (relax g inputs d s i) = run_workflow s"
  by (simp add: relax_def Let_def)

lemma relax_queue:
  "queue (relax g inputs d s i) = queue s \<or>
   (domain_ok (function_nodes g ! i) inputs \<and>
    queue (relax g inputs d s i) =
      queue s @ candidates (s\<lparr>pending := (pending s)(i := 0)\<rparr>) (function_nodes g ! i) i)"
  by (auto simp add: relax_def Let_def)

lemma candidates_entry:
  "e \<in> set (candidates s f i) \<Longrightarrow>
   \<exists>c out. e = (c, out, FromFunction i) \<and> out \<in> set (fn_outputs f) \<and> out \<noteq> SINK"
  by (auto simp add: candidates_def)

lemma foldl_relax_settled [simp]: "settled (foldl (relax g inputs d) s is) = settled s"
  by (induction "is" arbitrary: s) simp_all

lemma foldl_relax_results [simp]: "results (foldl (relax g inputs d) s is) = results s"
  by (induction "is" arbitrary: s) simp_all

lemma foldl_relax_workflow [simp]: "run_workflow (foldl (relax g inputs d) s is) = run_workflow s"
  by (induction "is" arbitrary: s) simp_all

definition fresh_entry :: "'v graph \<Rightarrow> (string \<times> 'v) list \<Rightarrow> real \<times> node_id \<times> provenance \<Rightarrow> bool" where
  "fresh_entry g inputs e =
     (\<exists>c out i. e = (c, out, FromFunction i) \<and> i < length (function_nodes g) \<and>
        domain_ok (function_nodes g ! i) inputs \<and>
        out \<in> set (fn_outputs (function_nodes g ! i)) \<and> out \<noteq> SINK)"

lemma relax_queue_entries:
  assumes "i < length (function_nodes g)" and "e \<in> set (queue (relax g inputs d s i))"
  shows "e \<in> set (queue s) \<or> fresh_entry g inputs e"
proof (cases "e \<in> set (queue s)")
  case True
  then show ?thesis by simp
next
  case False
  with relax_queue [of g inputs d s i] assms(2)
  have ok: "domain_ok (function_nodes g ! i) inputs"
    and "e \<in> set (candidates (s\<lparr>pending := (pending s)(i := 0)\<rparr>) (function_nodes g ! i) i)"
    by auto
  from candidates_entry [OF this(2)] obtain c out
    where "e = (c, out, FromFunction i)" "out \<in> set (fn_outputs (function_nodes g ! i))"
      "out \<noteq> SINK" by blast
  with ok assms(1) show ?thesis unfolding fresh_entry_def by blast
qed

lemma relax_queue_mono: "set (queue s) \<subseteq> set (queue (relax g inputs d s i))"
  using relax_queue [of g inputs d s i] by auto

lemma foldl_relax_queue_entries:
  "\<forall>i \<in> set is. i < length (function_nodes g) \<Longrightarrow>
   e \<in> set (queue (foldl (relax g inputs d) s is)) \<Longrightarrow>
   e \<in> set (queue s) \<or> fresh_entry g inputs e"
proof (induction "is" arbitrary: s)
  case Nil
  then show ?case by simp
next
  case (Cons i "is")
  from Cons.prems have "e \<in> set (queue (foldl (relax g inputs d) (relax g inputs d s i) is))"
    by simp
  with Cons.IH [of "relax g inputs d s i"] Cons.prems(1)
  have "e \<in> set (queue (relax g inputs d s i)) \<or> fresh_entry g inputs e" by simp
  with relax_queue_entries [of i g e inputs d s] Cons.prems(1) show ?case by auto
qed

lemma foldl_relax_queue_mono: "set (queue s) \<subseteq> set (queue (foldl (relax g inputs d) s is))"
proof (induction "is" arbitrary: s)
  case Nil
  show ?case by simp
next
  case (Cons i "is")
  have "set (queue s) \<subseteq> set (queue (relax g inputs d s i))" by (rule relax_queue_mono)
  also have "\<dots> \<subseteq> set (queue (foldl (relax g inputs d) (relax g inputs d s i) is))"
    by (rule Cons.IH)
  finally show ?case by simp
qed

lemma consumers_bound: "\<forall>i \<in> set (consumers g d). i < length (function_nodes g)"
  by (simp add: consumers_def)

lemma settle_settled [simp]: "settled (settle g inputs d v c p s) = (settled s)(d \<mapsto> (v, c, p))"
  by (simp add: settle_def)

lemma settle_results [simp]: "results (settle g inputs d v c p s) = results s"
  by (simp add: settle_def)

lemma settle_workflow [simp]:
  "run_workflow (settle g inputs d v c p s) = run_workflow s @ [Settlement d v p]"
  by (simp add: settle_def)

lemma settle_queue_entries:
  "e \<in> set (queue (settle g inputs d v c p s)) \<Longrightarrow> e \<in> set (queue s) \<or> fresh_entry g inputs e"
  using foldl_relax_queue_entries [OF consumers_bound, where e = e and inputs = inputs]
  by (fastforce simp add: settle_def)

lemma settle_queue_mono: "set (queue s) \<subseteq> set (queue (settle g inputs d v c p s))"
  using foldl_relax_queue_mono [of "s\<lparr>settled := (settled s)(d \<mapsto> (v, c, p)),
          run_workflow := run_workflow s @ [Settlement d v p]\<rparr>" g inputs d "consumers g d"]
  by (simp add: settle_def)

lemma min_entry_in: "min_entry e es \<in> set (e # es)"
  by (induction es arbitrary: e) auto

lemma pop_min_Some:
  "pop_min q = Some (e, q') \<Longrightarrow> e \<in> set q \<and> q' = remove1 e q"
  using min_entry_in by (auto simp add: pop_min_def split: list.splits)

lemma pop_min_None [simp]: "(pop_min q = None) = (q = [])"
  by (simp add: pop_min_def split: list.splits)

lemma pop_min_length: "pop_min q = Some (e, q') \<Longrightarrow> Suc (length q') = length q"
  by (drule pop_min_Some) (auto simp add: length_remove1 dest: length_pos_if_in_set)

lemma pop_min_subset: "pop_min q = Some (e, q') \<Longrightarrow> set q' \<subseteq> set q"
  using set_remove1_subset by (fastforce dest: pop_min_Some)

lemma fresh_entry_universe: "fresh_entry g inputs e \<Longrightarrow> fst (snd e) \<in> universe g s"
  by (auto simp add: fresh_entry_def universe_def)

lemma serve_cases:
  "(settled (serve g inputs c d p s) = settled s \<and> queue (serve g inputs c d p s) = queue s) \<or>
   (settled s d = None \<and> (\<exists>v. settled (serve g inputs c d p s) = (settled s)(d \<mapsto> (v, c, p))) \<and>
    (\<forall>e \<in> set (queue (serve g inputs c d p s)). e \<in> set (queue s) \<or> fresh_entry g inputs e))"
  by (auto simp add: serve_def Let_def dest!: settle_queue_entries
      split: provenance.splits node_id.splits option.splits sum.splits)

definition resolve_measure :: "'v graph \<Rightarrow> 'v run_state \<Rightarrow> nat \<times> nat" where
  "resolve_measure g s = (card (universe g s - dom (settled s)), length (queue s))"

lemma settle_decreases:
  assumes d: "d \<in> universe g s" and u: "settled s d = None"
    and st: "settled s' = (settled s)(d \<mapsto> x)"
    and q: "\<forall>e \<in> set (queue s'). e \<in> set (queue s) \<or> fresh_entry g inputs e"
  shows "card (universe g s' - dom (settled s')) < card (universe g s - dom (settled s))"
proof -
  have sub: "universe g s' \<subseteq> universe g s"
  proof
    fix x assume "x \<in> universe g s'"
    then consider e where "e \<in> set (queue s')" "x = fst (snd e)"
      | "x \<in> (\<Union>f \<in> set (function_nodes g). set (fn_outputs f)) \<union>
              (\<lambda>n. Data (data_id n)) ` set (data_nodes g)"
      unfolding universe_def by blast
    then show "x \<in> universe g s"
    proof cases
      case 1
      with q have "e \<in> set (queue s) \<or> fresh_entry g inputs e" by blast
      then show ?thesis
      proof
        assume "e \<in> set (queue s)"
        with 1(2) show ?thesis unfolding universe_def by blast
      next
        assume "fresh_entry g inputs e"
        with 1(2) show ?thesis by (simp add: fresh_entry_universe)
      qed
    next
      case 2
      then show ?thesis unfolding universe_def by blast
    qed
  qed
  have dm: "dom (settled s') = insert d (dom (settled s))" by (simp add: st)
  have "d \<notin> dom (settled s)" using u by (simp add: dom_def)
  with sub d dm have "universe g s' - dom (settled s') \<subset> universe g s - dom (settled s)"
    by blast
  then show ?thesis
    by (rule psubset_card_mono [rotated]) (simp add: finite_universe)
qed

lemma pop_min_Nil [simp]: "pop_min [] = None"
  by (simp add: pop_min_def)

lemma step_decreases:
  assumes "step g inputs requested s = Some s'"
  shows "(resolve_measure g s', resolve_measure g s) \<in> less_than <*lex*> less_than"
proof (cases "pop_min (queue s)")
  case None
  with assms obtain n where n: "find (awaits_default inputs s) (data_nodes g) = Some n"
    and s': "s' = settle g inputs (Data (data_id n)) (default_value n) 0 FromDefault s"
    by (auto simp add: step_def split: if_splits option.splits)
  from n have "n \<in> set (data_nodes g)" and "awaits_default inputs s n"
    by (auto simp add: find_Some_iff)
  then have "Data (data_id n) \<in> universe g s" and "settled s (Data (data_id n)) = None"
    by (auto simp add: universe_def awaits_default_def)
  from settle_decreases [OF this, of s' _ inputs] s' settle_queue_entries show ?thesis
    by (fastforce simp add: resolve_measure_def)
next
  case (Some a)
  then obtain c d p q where pop: "pop_min (queue s) = Some ((c, d, p), q)"
    by (cases a) auto
  with assms have s': "s' = serve g inputs c d p (s\<lparr>queue := q\<rparr>)"
    by (auto simp add: step_def split: if_splits)
  let ?s1 = "s\<lparr>queue := q\<rparr>"
  from pop_min_subset [OF pop] have qs: "set q \<subseteq> set (queue s)" .
  from pop_min_length [OF pop] have ql: "length q < length (queue s)" by simp
  from pop_min_Some [OF pop] have din: "d \<in> universe g s"
    by (force simp add: universe_def)
  from serve_cases [of g inputs c d p ?s1] show ?thesis
  proof
    assume a: "settled (serve g inputs c d p ?s1) = settled ?s1 \<and>
               queue (serve g inputs c d p ?s1) = queue ?s1"
    then have "universe g s' \<subseteq> universe g s" using qs s' by (auto simp add: universe_def)
    then have "card (universe g s' - dom (settled s')) \<le> card (universe g s - dom (settled s))"
      using a s' by (intro card_mono) (auto simp add: finite_universe)
    with a s' ql show ?thesis by (auto simp add: resolve_measure_def)
  next
    assume b: "settled ?s1 d = None \<and>
       (\<exists>v. settled (serve g inputs c d p ?s1) = (settled ?s1)(d \<mapsto> (v, c, p))) \<and>
       (\<forall>e \<in> set (queue (serve g inputs c d p ?s1)). e \<in> set (queue ?s1) \<or> fresh_entry g inputs e)"
    then obtain v where u: "settled s d = None"
      and st: "settled s' = (settled s)(d \<mapsto> (v, c, p))"
      using s' by auto
    from b s' qs have q: "\<forall>e \<in> set (queue s'). e \<in> set (queue s) \<or> fresh_entry g inputs e"
      by auto
    from settle_decreases [OF din u st q] show ?thesis
      by (simp add: resolve_measure_def)
  qed
qed

text \<open>
  Modelled from the spec: the loop of section 4.2.
\<close>

function resolve :: "'v graph \<Rightarrow> (string \<times> 'v) list \<Rightarrow> node_id list \<Rightarrow> 'v run_state \<Rightarrow> 'v run_state" where
  "resolve g inputs requested s =
     (case step g inputs requested s of
        None \<Rightarrow> s
      | Some s' \<Rightarrow> resolve g inputs requested s')"
  by pat_completeness auto
termination
proof (relation "inv_image (less_than <*lex*> less_than) (\<lambda>(g, inputs, requested, s). resolve_measure g s)")
  show "wf (inv_image (less_than <*lex*> less_than)
          (\<lambda>(g :: 'v graph, inputs :: (string \<times> 'v) list, requested :: node_id list, s). resolve_measure g s))"
    by (intro wf_inv_image wf_lex_prod wf_less_than)
next
  fix g :: "'v graph" and inputs :: "(string \<times> 'v) list" and requested s s'
  assume "step g inputs requested s = Some s'"
  from step_decreases [OF this]
  show "((g, inputs, requested, s'), (g, inputs, requested, s))
        \<in> inv_image (less_than <*lex*> less_than) (\<lambda>(g, inputs, requested, s). resolve_measure g s)"
    by simp
qed

declare resolve.simps [simp del]

definition init_state :: "'v graph \<Rightarrow> (string \<times> 'v) list \<Rightarrow> 'v run_state" where
  "init_state g inputs =
     \<lparr>queue = map (\<lambda>kv. (0, Data (fst kv), FromInput)) inputs @ [(0, START, FromStart)],
      settled = Map.empty,
      pending = (\<lambda>i. if i < length (function_nodes g)
                       then length (required (function_nodes g ! i)) else 0),
      discarded = (\<lambda>i. False),
      results = Map.empty,
      run_workflow = []\<rparr>"

definition solution_of :: "'v run_state \<Rightarrow> node_id \<Rightarrow> 'v option" where
  "solution_of s d = (case settled s d of Some (Some v, c, p) \<Rightarrow> Some v | _ \<Rightarrow> None)"

text \<open>
  Modelled from the spec: \<open>dispatch(inputs, requested_outputs, graph)\<close> returns the
  solution, the values of the settled ids, and the workflow.
\<close>

definition final_state :: "(string \<times> 'v) list \<Rightarrow> node_id list \<Rightarrow> 'v graph \<Rightarrow> 'v run_state" where
  "final_state inputs requested g = resolve g inputs requested (init_state g inputs)"

definition dispatch :: "(string \<times> 'v) list \<Rightarrow> node_id list \<Rightarrow> 'v graph
    \<Rightarrow> (node_id \<Rightarrow> 'v option) \<times> 'v event list" where
  "dispatch inputs requested g =
     (solution_of (final_state inputs requested g), run_workflow (final_state inputs requested g))"

section \<open>Theorems about the cycle model\<close>

lemma is_nedc_example: "is_nedc [(''k1'', PInt 1), (''cycle_type'', PStr ''NEDC'')]"
  by simp

lemma is_wltp_example: "is_wltp [(''plan:cycle_type'', PStr ''WLTP''), (''k1'', PInt 1)]"
  by simp

text \<open>
  Claim C9.  The two branch-eligibility predicates of the cycle model are mutually
  exclusive: for every keyword map, \<open>is_nedc\<close> and \<open>is_wltp\<close> are never both true, so the
  NEDC and the WLTP sub-model are never both eligible in one run.
\<close>

theorem is_nedc_is_wltp_exclusive: "(is_nedc kwargs \<and> is_wltp kwargs) = False"
proof (induction kwargs)
  case Nil
  show ?case by simp
next
  case (Cons kv kwargs)
  obtain k v where kv: "kv = (k, v)" by (cases kv)
  show ?case
  proof (cases "str_contains '':cycle_type'' k \<or> ''cycle_type'' = k")
    case True
    then show ?thesis using kv by auto
  next
    case False
    then show ?thesis using kv Cons.IH by simp
  qed
qed


section \<open>Theorems about the dice reports\<close>














lemma ex_files_raises:
  "raised (yield_report_tuples_from_iofiles ex_report ex_files (PStr ''Z''))
     = Some (CmdException ''c.xlsx'' (PStr ''B'') (PStr ''A''))"
  by (simp add: ex_report_def ex_files_def yield_report_tuples_from_iofiles_def report_tuples_def
      check_vfid_missmatch_def Let_def)

section \<open>Theorems about the drawing functions\<close>




section \<open>Theorems about the resolver\<close>

lemma resolve_invariant:
  assumes "P s" and "\<And>s s'. P s \<Longrightarrow> step g inputs requested s = Some s' \<Longrightarrow> P s'"
  shows "P (resolve g inputs requested s)"
  using assms
proof (induction g inputs requested s rule: resolve.induct)
  case (1 g inputs requested s)
  show ?case
  proof (cases "step g inputs requested s")
    case None
    with "1.prems"(1) show ?thesis by (subst resolve.simps) simp
  next
    case (Some s')
    from "1.prems" Some have p: "P s'" by blast
    have "P (resolve g inputs requested s')"
    proof (rule "1.IH" [OF Some p])
      fix a b assume "P a" "step g inputs requested a = Some b"
      then show "P b" by (rule "1.prems"(2))
    qed
    with Some show ?thesis by (subst resolve.simps) simp
  qed
qed



text \<open>
  The iterations of the loop as a relation, one rule for each thing an iteration can do.
\<close>

inductive transition :: "'v graph \<Rightarrow> (string \<times> 'v) list \<Rightarrow> 'v run_state \<Rightarrow> 'v run_state \<Rightarrow> bool"
  for g :: "'v graph" and inputs :: "(string \<times> 'v) list" where
  drop: "pop_min (queue s) = Some ((c, d, p), q) \<Longrightarrow> transition g inputs s (s\<lparr>queue := q\<rparr>)"
| start: "pop_min (queue s) = Some ((c, d, FromStart), q) \<Longrightarrow> settled s d = None \<Longrightarrow>
     transition g inputs s (settle g inputs d None c FromStart (s\<lparr>queue := q\<rparr>))"
| input: "pop_min (queue s) = Some ((c, Data k, FromInput), q) \<Longrightarrow> settled s (Data k) = None \<Longrightarrow>
     map_of inputs k = Some v \<Longrightarrow>
     transition g inputs s (settle g inputs (Data k) (Some v) c FromInput (s\<lparr>queue := q\<rparr>))"
| cached: "pop_min (queue s) = Some ((c, d, FromFunction i), q) \<Longrightarrow> settled s d = None \<Longrightarrow>
     \<not> discarded s i \<Longrightarrow> i < length (function_nodes g) \<Longrightarrow> results s i = Some vs \<Longrightarrow>
     transition g inputs s
       (settle g inputs d (output_value (function_nodes g ! i) vs d) c (FromFunction i) (s\<lparr>queue := q\<rparr>))"
| failed: "pop_min (queue s) = Some ((c, d, FromFunction i), q) \<Longrightarrow> settled s d = None \<Longrightarrow>
     \<not> discarded s i \<Longrightarrow> i < length (function_nodes g) \<Longrightarrow> results s i = None \<Longrightarrow>
     invoke (function_nodes g ! i) (arguments s (function_nodes g ! i)) = Inl e \<Longrightarrow>
     transition g inputs s
       (s\<lparr>queue := q, discarded := (discarded s)(i := True),
          run_workflow := run_workflow s @ [Failure i e]\<rparr>)"
| invoked: "pop_min (queue s) = Some ((c, d, FromFunction i), q) \<Longrightarrow> settled s d = None \<Longrightarrow>
     \<not> discarded s i \<Longrightarrow> i < length (function_nodes g) \<Longrightarrow> results s i = None \<Longrightarrow>
     invoke (function_nodes g ! i) (arguments s (function_nodes g ! i)) = Inr vs \<Longrightarrow>
     transition g inputs s
       (settle g inputs d (output_value (function_nodes g ! i) vs d) c (FromFunction i)
          (s\<lparr>queue := q, results := (results s)(i \<mapsto> vs),
             run_workflow := run_workflow s @
               [Invocation i (arguments s (function_nodes g ! i)) vs]\<rparr>))"
| default: "queue s = [] \<Longrightarrow> n \<in> set (data_nodes g) \<Longrightarrow> awaits_default inputs s n \<Longrightarrow>
     transition g inputs s
       (settle g inputs (Data (data_id n)) (default_value n) 0 FromDefault s)"

lemma arguments_queue [simp]: "arguments (s\<lparr>queue := q\<rparr>) f = arguments s f"
  by (simp add: arguments_def)

lemma serve_transition:
  assumes "pop_min (queue s) = Some ((c, d, p), q)"
  shows "transition g inputs s (serve g inputs c d p (s\<lparr>queue := q\<rparr>))"
proof (cases "settled s d = None")
  case False
  then show ?thesis using transition.drop [OF assms] by (simp add: serve_def Let_def)
next
  case True
  note unsettled = this
  show ?thesis
  proof (cases p)
    case FromInput
    show ?thesis
    proof (cases d)
      case (Data k)
      show ?thesis
      proof (cases "map_of inputs k")
        case None
        then show ?thesis
          using transition.drop [OF assms] unsettled FromInput Data by (simp add: serve_def Let_def)
      next
        case (Some v)
        then show ?thesis
          using transition.input [of s c k q inputs v g] assms unsettled FromInput Data
          by (simp add: serve_def Let_def)
      qed
    qed (use transition.drop [OF assms] unsettled FromInput in \<open>simp_all add: serve_def\<close>)
  next
    case FromStart
    then show ?thesis
      using transition.start [of s c d q g inputs] assms unsettled by (simp add: serve_def Let_def)
  next
    case FromDefault
    then show ?thesis using transition.drop [OF assms] unsettled by (simp add: serve_def Let_def)
  next
    case (FromFunction i)
    show ?thesis
    proof (cases "discarded s i \<or> \<not> i < length (function_nodes g)")
      case True
      then show ?thesis
        using transition.drop [OF assms] unsettled FromFunction by (auto simp add: serve_def)
    next
      case False
      then have ok: "\<not> discarded s i" "i < length (function_nodes g)" by simp_all
      show ?thesis
      proof (cases "results s i")
        case (Some vs)
        then show ?thesis
          using transition.cached [of s c d i q g vs inputs] assms unsettled FromFunction ok
          by (simp add: serve_def Let_def)
      next
        case None
        show ?thesis
        proof (cases "invoke (function_nodes g ! i) (arguments s (function_nodes g ! i))")
          case (Inl e)
          then show ?thesis
            using transition.failed [of s c d i q g e inputs] assms unsettled FromFunction ok None
            by (simp add: serve_def Let_def)
        next
          case (Inr vs)
          then show ?thesis
            using transition.invoked [of s c d i q g vs inputs] assms unsettled FromFunction ok None
            by (simp add: serve_def Let_def)
        qed
      qed
    qed
  qed
qed

lemma step_transition:
  assumes "step g inputs requested s = Some s'"
  shows "transition g inputs s s'"
proof (cases "pop_min (queue s)")
  case None
  with assms obtain n where n: "find (awaits_default inputs s) (data_nodes g) = Some n"
    and s': "s' = settle g inputs (Data (data_id n)) (default_value n) 0 FromDefault s"
    by (auto simp add: step_def split: if_splits option.splits)
  from n have "n \<in> set (data_nodes g)" and "awaits_default inputs s n"
    by (auto simp add: find_Some_iff)
  with None s' show ?thesis by (simp add: transition.default)
next
  case (Some a)
  then obtain c d p q where pop: "pop_min (queue s) = Some ((c, d, p), q)"
    by (cases a) auto
  with assms have "s' = serve g inputs c d p (s\<lparr>queue := q\<rparr>)"
    by (auto simp add: step_def split: if_splits)
  with serve_transition [OF pop] show ?thesis by simp
qed

lemma final_state_invariant:
  assumes "P (init_state g inputs)" and "\<And>s s'. P s \<Longrightarrow> transition g inputs s s' \<Longrightarrow> P s'"
  shows "P (final_state inputs requested g)"
  unfolding final_state_def
  using assms(1)
proof (rule resolve_invariant)
  fix s s' assume "P s" "step g inputs requested s = Some s'"
  then show "P s'" using assms(2) step_transition by blast
qed


definition sound_source :: "'v graph \<Rightarrow> (string \<times> 'v) list \<Rightarrow> node_id \<Rightarrow> 'v option \<Rightarrow> provenance \<Rightarrow> bool" where
  "sound_source g inputs d v p =
     (case p of
        FromStart \<Rightarrow> v = None
      | FromInput \<Rightarrow> (case d of Data k \<Rightarrow> v \<noteq> None \<and> map_of inputs k = v | _ \<Rightarrow> False)
      | FromDefault \<Rightarrow>
          (\<exists>n \<in> set (data_nodes g). d = Data (data_id n) \<and> v \<noteq> None \<and> default_value n = v)
      | FromFunction i \<Rightarrow>
          i < length (function_nodes g) \<and> domain_ok (function_nodes g ! i) inputs \<and>
          d \<in> set (fn_outputs (function_nodes g ! i)))"

fun sound_event :: "'v graph \<Rightarrow> (string \<times> 'v) list \<Rightarrow> 'v event \<Rightarrow> bool" where
  "sound_event g inputs (Settlement d v p) = sound_source g inputs d v p"
| "sound_event g inputs (Invocation i args vs) =
     (i < length (function_nodes g) \<and> domain_ok (function_nodes g ! i) inputs)"
| "sound_event g inputs (Failure i e) =
     (i < length (function_nodes g) \<and> domain_ok (function_nodes g ! i) inputs)"

definition provenance_inv :: "'v graph \<Rightarrow> (string \<times> 'v) list \<Rightarrow> 'v run_state \<Rightarrow> bool" where
  "provenance_inv g inputs s =
     ((\<forall>c d i. (c, d, FromFunction i) \<in> set (queue s) \<longrightarrow>
          sound_source g inputs d None (FromFunction i)) \<and>
      (\<forall>d v c p. settled s d = Some (v, c, p) \<longrightarrow> sound_source g inputs d v p) \<and>
      (\<forall>ev \<in> set (run_workflow s). sound_event g inputs ev))"

lemma fresh_entry_sound:
  "fresh_entry g inputs (c, d, FromFunction i) \<Longrightarrow> sound_source g inputs d v (FromFunction i)"
  by (auto simp add: fresh_entry_def sound_source_def)

lemma provenance_inv_settle:
  assumes inv: "provenance_inv g inputs s" and src: "sound_source g inputs d v p"
    and q: "set (queue s0) \<subseteq> set (queue s)" and st: "settled s0 = settled s"
    and wf: "\<forall>ev \<in> set (run_workflow s0). sound_event g inputs ev"
  shows "provenance_inv g inputs (settle g inputs d v c p s0)"
  unfolding provenance_inv_def
proof (intro conjI allI impI ballI)
  fix c' d' i assume "(c', d', FromFunction i) \<in> set (queue (settle g inputs d v c p s0))"
  from settle_queue_entries [OF this]
  show "sound_source g inputs d' None (FromFunction i)"
    using inv q fresh_entry_sound by (auto simp add: provenance_inv_def)
next
  fix d' v' c' p' assume "settled (settle g inputs d v c p s0) d' = Some (v', c', p')"
  then show "sound_source g inputs d' v' p'"
    using inv src st by (auto simp add: provenance_inv_def split: if_splits)
next
  fix ev assume "ev \<in> set (run_workflow (settle g inputs d v c p s0))"
  then show "sound_event g inputs ev" using wf src by auto
qed

lemma provenance_inv_init: "provenance_inv g inputs (init_state g inputs)"
  by (auto simp add: provenance_inv_def init_state_def)

lemma provenance_inv_step:
  assumes inv: "provenance_inv g inputs s" and tr: "transition g inputs s s'"
  shows "provenance_inv g inputs s'"
  using tr
proof cases
  case (drop c d p q)
  from pop_min_subset [OF drop(2)] inv show ?thesis
    unfolding drop(1) provenance_inv_def by auto
next
  case (start c d q)
  show ?thesis unfolding start(1)
    using inv pop_min_subset [OF start(2)]
    by (intro provenance_inv_settle [OF inv]) (auto simp add: sound_source_def provenance_inv_def)
next
  case (input c k q v)
  show ?thesis unfolding input(1)
    using inv pop_min_subset [OF input(2)] input(4)
    by (intro provenance_inv_settle [OF inv]) (auto simp add: sound_source_def provenance_inv_def)
next
  case (cached c d i q vs)
  from pop_min_Some [OF cached(2)] inv
  have src: "sound_source g inputs d None (FromFunction i)" by (auto simp add: provenance_inv_def)
  then have "sound_source g inputs d (output_value (function_nodes g ! i) vs d) (FromFunction i)"
    by (simp add: sound_source_def)
  then show ?thesis unfolding cached(1)
    using inv pop_min_subset [OF cached(2)]
    by (intro provenance_inv_settle [OF inv]) (auto simp add: provenance_inv_def)
next
  case (failed c d i q e)
  from pop_min_Some [OF failed(2)] inv
  have src: "sound_source g inputs d None (FromFunction i)" by (auto simp add: provenance_inv_def)
  with pop_min_subset [OF failed(2)] inv show ?thesis
    unfolding failed(1) provenance_inv_def by (auto simp add: sound_source_def)
next
  case (invoked c d i q vs)
  from pop_min_Some [OF invoked(2)] inv
  have src: "sound_source g inputs d None (FromFunction i)" by (auto simp add: provenance_inv_def)
  then have "sound_source g inputs d (output_value (function_nodes g ! i) vs d) (FromFunction i)"
    by (simp add: sound_source_def)
  then show ?thesis unfolding invoked(1)
    using inv pop_min_subset [OF invoked(2)] src
    by (intro provenance_inv_settle [OF inv]) (auto simp add: provenance_inv_def sound_source_def)
next
  case (default n)
  then have "sound_source g inputs (Data (data_id n)) (default_value n) FromDefault"
    by (auto simp add: sound_source_def awaits_default_def)
  then show ?thesis unfolding default(1)
    using inv by (intro provenance_inv_settle [OF inv]) (auto simp add: provenance_inv_def)
qed

lemma provenance_inv_final: "provenance_inv g inputs (final_state inputs requested g)"
  by (rule final_state_invariant [where P = "provenance_inv g inputs"])
     (simp_all add: provenance_inv_init provenance_inv_step)











lemma relax_pending:
  "pending (relax g inputs d s i) j =
     (if j = i then pending s i - count_list (required (function_nodes g ! i)) d else pending s j)"
  by (simp add: relax_def Let_def)

lemma relax_discarded:
  "discarded (relax g inputs d s i) j =
     (discarded s j \<or>
      (j = i \<and> pending s i - count_list (required (function_nodes g ! i)) d = 0 \<and>
       \<not> domain_ok (function_nodes g ! i) inputs))"
  by (auto simp add: relax_def Let_def)

lemma foldl_relax_pending:
  "distinct is \<Longrightarrow>
   pending (foldl (relax g inputs d) s is) j =
     (if j \<in> set is then pending s j - count_list (required (function_nodes g ! j)) d
      else pending s j)"
proof (induction "is" arbitrary: s)
  case Nil
  show ?case by simp
next
  case (Cons i "is")
  then show ?case by (auto simp add: relax_pending)
qed

lemma foldl_relax_discarded:
  "distinct is \<Longrightarrow>
   discarded (foldl (relax g inputs d) s is) j =
     (discarded s j \<or>
      (j \<in> set is \<and> pending s j - count_list (required (function_nodes g ! j)) d = 0 \<and>
       \<not> domain_ok (function_nodes g ! j) inputs))"
proof (induction "is" arbitrary: s)
  case Nil
  show ?case by simp
next
  case (Cons i "is")
  then show ?case by (auto simp add: relax_pending relax_discarded)
qed

lemma distinct_consumers: "distinct (consumers g d)"
  by (simp add: consumers_def)

lemma consumers_iff:
  "i \<in> set (consumers g d) \<longleftrightarrow>
   i < length (function_nodes g) \<and> d \<in> set (required (function_nodes g ! i))"
  by (auto simp add: consumers_def)

lemma settle_pending:
  assumes "j < length (function_nodes g)"
  shows "pending (settle g inputs d v c p s) j =
         pending s j - count_list (required (function_nodes g ! j)) d"
  using assms
  by (simp add: settle_def foldl_relax_pending [OF distinct_consumers] consumers_iff)

lemma settle_discarded:
  assumes "j < length (function_nodes g)"
  shows "discarded (settle g inputs d v c p s) j =
         (discarded s j \<or>
          (d \<in> set (required (function_nodes g ! j)) \<and>
           pending s j - count_list (required (function_nodes g ! j)) d = 0 \<and>
           \<not> domain_ok (function_nodes g ! j) inputs))"
  using assms
  by (simp add: settle_def foldl_relax_discarded [OF distinct_consumers] consumers_iff)

definition unsettled :: "'v run_state \<Rightarrow> node_id list \<Rightarrow> node_id list" where
  "unsettled s ds = filter (\<lambda>a. settled s a = None) ds"

lemma unsettled_update:
  assumes "m d = None"
  shows "length (filter (\<lambda>a. m a = None) xs) =
         length (filter (\<lambda>a. (m(d \<mapsto> x)) a = None) xs) + count_list xs d"
  using assms by (induction xs) auto

definition gate_inv :: "'v graph \<Rightarrow> (string \<times> 'v) list \<Rightarrow> 'v run_state \<Rightarrow> bool" where
  "gate_inv g inputs s =
     (\<forall>i < length (function_nodes g).
        pending s i = length (unsettled s (required (function_nodes g ! i))) \<and>
        (pending s i = 0 \<and> \<not> domain_ok (function_nodes g ! i) inputs \<longrightarrow> discarded s i))"

lemma required_not_Nil: "required f \<noteq> []"
  by (simp add: required_def)

lemma gate_inv_init: "gate_inv g inputs (init_state g inputs)"
  by (simp add: gate_inv_def init_state_def unsettled_def required_not_Nil)

lemma gate_inv_settle:
  assumes inv: "gate_inv g inputs s0" and u: "settled s0 d = None"
  shows "gate_inv g inputs (settle g inputs d v c p s0)"
  unfolding gate_inv_def
proof (intro allI impI)
  fix i assume i: "i < length (function_nodes g)"
  let ?req = "required (function_nodes g ! i)"
  let ?s' = "settle g inputs d v c p s0"
  from inv i have old: "pending s0 i = length (unsettled s0 ?req)"
    and dis: "pending s0 i = 0 \<and> \<not> domain_ok (function_nodes g ! i) inputs \<longrightarrow> discarded s0 i"
    by (simp_all add: gate_inv_def)
  from unsettled_update [of "settled s0" d ?req "(v, c, p)"] u
  have "length (unsettled s0 ?req) = length (unsettled ?s' ?req) + count_list ?req d"
    by (simp add: unsettled_def)
  with old have new: "pending ?s' i = length (unsettled ?s' ?req)"
    by (simp add: settle_pending [OF i])
  have "pending ?s' i = 0 \<and> \<not> domain_ok (function_nodes g ! i) inputs \<longrightarrow> discarded ?s' i"
  proof
    assume a: "pending ?s' i = 0 \<and> \<not> domain_ok (function_nodes g ! i) inputs"
    show "discarded ?s' i"
    proof (cases "d \<in> set ?req")
      case True
      with a show ?thesis by (simp add: settle_discarded [OF i] settle_pending [OF i])
    next
      case False
      with a have "pending s0 i = 0" by (simp add: settle_pending [OF i])
      with a dis show ?thesis by (simp add: settle_discarded [OF i])
    qed
  qed
  with new show "pending ?s' i = length (unsettled ?s' ?req) \<and>
    (pending ?s' i = 0 \<and> \<not> domain_ok (function_nodes g ! i) inputs \<longrightarrow> discarded ?s' i)"
    by simp
qed

lemma gate_inv_frame:
  assumes "gate_inv g inputs s" and "settled s0 = settled s" and "pending s0 = pending s"
    and "\<And>j. discarded s j \<Longrightarrow> discarded s0 j"
  shows "gate_inv g inputs s0"
  using assms by (simp add: gate_inv_def unsettled_def)

lemma gate_inv_step:
  assumes inv: "gate_inv g inputs s" and tr: "transition g inputs s s'"
  shows "gate_inv g inputs s'"
  using tr
proof cases
  case (drop c d p q)
  show ?thesis unfolding drop(1) by (rule gate_inv_frame [OF inv]) simp_all
next
  case (start c d q)
  have "gate_inv g inputs (s\<lparr>queue := q\<rparr>)" by (rule gate_inv_frame [OF inv]) simp_all
  then show ?thesis unfolding start(1) using start(3) by (intro gate_inv_settle) simp_all
next
  case (input c k q v)
  have "gate_inv g inputs (s\<lparr>queue := q\<rparr>)" by (rule gate_inv_frame [OF inv]) simp_all
  then show ?thesis unfolding input(1) using input(3) by (intro gate_inv_settle) simp_all
next
  case (cached c d i q vs)
  have "gate_inv g inputs (s\<lparr>queue := q\<rparr>)" by (rule gate_inv_frame [OF inv]) simp_all
  then show ?thesis unfolding cached(1) using cached(3) by (intro gate_inv_settle) simp_all
next
  case (failed c d i q e)
  show ?thesis unfolding failed(1) by (rule gate_inv_frame [OF inv]) simp_all
next
  case (invoked c d i q vs)
  have "gate_inv g inputs (s\<lparr>queue := q, results := (results s)(i \<mapsto> vs),
          run_workflow := run_workflow s @
            [Invocation i (arguments s (function_nodes g ! i)) vs]\<rparr>)"
    by (rule gate_inv_frame [OF inv]) simp_all
  then show ?thesis unfolding invoked(1) using invoked(3) by (intro gate_inv_settle) simp_all
next
  case (default n)
  show ?thesis unfolding default(1) using inv default(4)
    by (intro gate_inv_settle) (simp_all add: awaits_default_def)
qed

lemma gate_inv_final: "gate_inv g inputs (final_state inputs requested g)"
  by (rule final_state_invariant [where P = "gate_inv g inputs"])
     (simp_all add: gate_inv_init gate_inv_step)

text \<open>
  The function node, if any, that an event of the trace is about.
\<close>

fun event_function :: "'v event \<Rightarrow> nat option" where
  "event_function (Settlement d v (FromFunction i)) = Some i"
| "event_function (Settlement d v p) = None"
| "event_function (Invocation i args vs) = Some i"
| "event_function (Failure i e) = Some i"

text \<open>
  An id is producible otherwise than by function \<open>i\<close> when the call supplies it, when
  its data node has a default value, or when another function lists it among its outputs.
\<close>

definition producible_otherwise :: "'v graph \<Rightarrow> (string \<times> 'v) list \<Rightarrow> nat \<Rightarrow> node_id \<Rightarrow> bool" where
  "producible_otherwise g inputs i d =
     ((case d of Data k \<Rightarrow> map_of inputs k \<noteq> None | _ \<Rightarrow> False) \<or>
      (\<exists>n \<in> set (data_nodes g). d = Data (data_id n) \<and> default_value n \<noteq> None) \<or>
      (\<exists>j \<in> set [0..<length (function_nodes g)]. j \<noteq> i \<and> d \<in> set (fn_outputs (function_nodes g ! j))))"

text \<open>
  The examples of section 8 of the specification: two producers of \<open>b\<close> of weights 0
  and 10, and a data node with a default value and no producer.
\<close>

definition ex_weighted :: "int graph" where
  "ex_weighted =
     \<lparr>data_nodes = [],
      function_nodes =
        [\<lparr>function_id = ''f1'', fn_inputs = [Data ''a''], fn_outputs = [Data ''b''], weight = 0,
           input_domain = None, callable = (\<lambda>vs. Inr (map (\<lambda>v. v + 1) vs))\<rparr>,
         \<lparr>function_id = ''f2'', fn_inputs = [Data ''a''], fn_outputs = [Data ''b''], weight = 10,
           input_domain = None, callable = (\<lambda>vs. Inr (map (\<lambda>v. v + 2) vs))\<rparr>]\<rparr>"

definition ex_default :: "int graph" where
  "ex_default =
     \<lparr>data_nodes = [\<lparr>data_id = ''x'', default_value = Some 100, wait_input = False\<rparr>],
      function_nodes = []\<rparr>"



definition ex_gated :: "pyval graph" where
  "ex_gated =
     \<lparr>data_nodes = [],
      function_nodes =
        [\<lparr>function_id = ''g'', fn_inputs = [Data ''a''], fn_outputs = [Data ''out''], weight = 0,
           input_domain = Some (\<lambda>inputs. map_of inputs ''mode'' = Some (PStr ''A'')),
           callable = (\<lambda>vs. Inr vs)\<rparr>]\<rparr>"

lemma ex_weighted_dispatch:
  "snd (dispatch [(''a'', 3)] [Data ''b''] ex_weighted) =
     [Settlement (Data ''a'') (Some 3) FromInput, Settlement START None FromStart,
      Invocation 0 [3] [4], Settlement (Data ''b'') (Some 4) (FromFunction 0)] \<and>
   fst (dispatch [(''a'', 3)] [Data ''b''] ex_weighted) (Data ''a'') = Some 3 \<and>
   fst (dispatch [(''a'', 3)] [Data ''b''] ex_weighted) (Data ''b'') = Some 4"
  by code_simp

lemma ex_default_dispatch:
  "snd (dispatch [] [Data ''x''] ex_default) =
     [Settlement START None FromStart, Settlement (Data ''x'') (Some 100) FromDefault] \<and>
   fst (dispatch [] [Data ''x''] ex_default) (Data ''x'') = Some 100"
  by code_simp




lemma dispatch_final:
  "dispatch inputs requested g =
     (solution_of (final_state inputs requested g), run_workflow (final_state inputs requested g))"
  by (simp add: dispatch_def)






text \<open>
  Claim C5.  On the resolver as the specification describes it: a function node whose
  \<open>input_domain\<close> predicate is false on the raw \<open>inputs\<close> of the call is mentioned by no
  event of the workflow (no invocation, no failure, no settlement through it); each of
  its outputs that is producible no other way is absent from the solution; and once all
  its required inputs are settled it is discarded, to the end of the run.
\<close>

theorem input_domain_gates_function:
  assumes i: "i < length (function_nodes g)"
    and P: "input_domain (function_nodes g ! i) = Some P" and no: "\<not> P inputs"
  shows "(\<forall>ev \<in> set (snd (dispatch inputs requested g)). event_function ev \<noteq> Some i) \<and>
         (\<forall>d \<in> set (fn_outputs (function_nodes g ! i)).
            \<not> producible_otherwise g inputs i d \<longrightarrow> fst (dispatch inputs requested g) d = None) \<and>
         ((\<forall>a \<in> set (required (function_nodes g ! i)).
             settled (final_state inputs requested g) a \<noteq> None) \<longrightarrow>
          discarded (final_state inputs requested g) i)"
proof (intro conjI ballI impI)
  let ?s = "final_state inputs requested g"
  from P no have nd: "\<not> domain_ok (function_nodes g ! i) inputs" by (simp add: domain_ok_def)
  note inv = provenance_inv_final [of g inputs requested, unfolded provenance_inv_def]
  {
    fix ev assume "ev \<in> set (snd (dispatch inputs requested g))"
    then have "sound_event g inputs ev" using inv by (simp add: dispatch_final)
    with nd show "event_function ev \<noteq> Some i"
      by (cases ev rule: event_function.cases) (auto simp add: sound_source_def)
  next
    fix d assume d: "d \<in> set (fn_outputs (function_nodes g ! i))"
      and np: "\<not> producible_otherwise g inputs i d"
    show "fst (dispatch inputs requested g) d = None"
    proof (rule ccontr)
      assume "fst (dispatch inputs requested g) d \<noteq> None"
      then obtain v c p where st: "settled ?s d = Some (Some v, c, p)"
        by (auto simp add: dispatch_final solution_of_def split: option.splits prod.splits)
      with inv have "sound_source g inputs d (Some v) p" by blast
      with np nd show False
        by (cases p) (auto simp add: sound_source_def producible_otherwise_def split: node_id.splits)
    qed
  next
    assume "\<forall>a \<in> set (required (function_nodes g ! i)). settled ?s a \<noteq> None"
    then have "unsettled ?s (required (function_nodes g ! i)) = []"
      by (auto simp add: unsettled_def filter_empty_conv)
    with gate_inv_final [of g inputs requested, unfolded gate_inv_def] i nd
    show "discarded ?s i" by simp
  }
qed

theorem input_domain_gates_function_witness:
  "0 < length (function_nodes ex_gated) \<and>
   \<not> (map_of [(''mode'', PStr ''B''), (''a'', PInt 1)] ''mode'' = Some (PStr ''A'')) \<and>
   list_all (\<lambda>ev. event_function ev \<noteq> Some 0)
     (snd (dispatch [(''mode'', PStr ''B''), (''a'', PInt 1)] [Data ''out''] ex_gated)) \<and>
   fst (dispatch [(''mode'', PStr ''B''), (''a'', PInt 1)] [Data ''out''] ex_gated) (Data ''out'') = None \<and>
   discarded (final_state [(''mode'', PStr ''B''), (''a'', PInt 1)] [Data ''out''] ex_gated) 0"
proof -
  let ?inputs = "[(''mode'', PStr ''B''), (''a'', PInt 1)]"
  have i: "0 < length (function_nodes ex_gated)" by (simp add: ex_gated_def)
  have P: "input_domain (function_nodes ex_gated ! 0) =
           Some (\<lambda>inputs. map_of inputs ''mode'' = Some (PStr ''A''))"
    by (simp add: ex_gated_def)
  have no: "\<not> (map_of ?inputs ''mode'' = Some (PStr ''A''))" by simp
  note t = input_domain_gates_function [OF i P no, of "[Data ''out'']"]
  have np: "\<not> producible_otherwise ex_gated ?inputs 0 (Data ''out'')"
    by (simp add: producible_otherwise_def ex_gated_def)
  have out: "Data ''out'' \<in> set (fn_outputs (function_nodes ex_gated ! 0))"
    by (simp add: ex_gated_def)
  have a: "settled (final_state ?inputs [Data ''out''] ex_gated) (Data ''a'') \<noteq> None"
    by code_simp
  have req: "required (function_nodes ex_gated ! 0) = [Data ''a'']"
    by (simp add: ex_gated_def required_def)
  from t have "list_all (\<lambda>ev. event_function ev \<noteq> Some 0)
     (snd (dispatch ?inputs [Data ''out''] ex_gated))"
    by (simp add: list_all_iff)
  moreover from t np out have "fst (dispatch ?inputs [Data ''out''] ex_gated) (Data ''out'') = None"
    by blast
  moreover from t a req have "discarded (final_state ?inputs [Data ''out''] ex_gated) 0"
    by simp
  ultimately show ?thesis using i no by simp
qed


end
